theory Spec2Isabelle
  imports Complex_Main "HOL-Library.Word"
begin

section \<open>Data model of \<open>torchneuromorphic/transforms.py\<close>\<close>

text \<open>
  An event list \<open>tmad\<close> is a two-dimensional integer array with one row per event and the
  four columns \<open>(t, p, x, y)\<close>.  The array has a single dtype, and the address columns are
  used as index arrays, so the timestamps are integers as well.  Values are modelled as
  unbounded \<open>int\<close>.

  Exceptions of the Python code are values of the type \<open>error\<close>; a call that can raise
  returns \<open>error + 'a\<close>, with \<open>Inl\<close> for the exception.
\<close>

datatype error = IndexError | NameError string | TypeError | ValueError | RuntimeError

type_synonym event = "int \<times> int \<times> int \<times> int"

definition time_of :: "event \<Rightarrow> int" where
  "time_of e = fst e"

definition addr_of :: "event \<Rightarrow> int \<times> int \<times> int" where
  "addr_of e = snd e"

subsection \<open>\<open>find_first\<close>: binary search\<close>

text \<open>
  \<open>find_first(a, tgt)\<close> is \<open>bisect.bisect_left(a, tgt)\<close>.  The standard library's loop is
  \<^verbatim>\<open>
    lo, hi = 0, len(a)
    while lo < hi:
        mid = (lo + hi) // 2
        if a[mid] < x: lo = mid + 1
        else: hi = mid
    return lo
  \<close>
  It is modelled as written, so that the result on an unsorted array is the one the
  code computes.  Every read \<open>a[mid]\<close> has \<open>mid < hi \<le> len(a)\<close>.
\<close>

function bisect_loop :: "int list \<Rightarrow> int \<Rightarrow> nat \<Rightarrow> nat \<Rightarrow> nat" where
  "bisect_loop a x lo hi =
     (if lo < hi then
        (let mid = (lo + hi) div 2 in
         if a ! mid < x then bisect_loop a x (mid + 1) hi
         else bisect_loop a x lo mid)
      else lo)"
  by pat_completeness auto
termination
  by (relation "measure (\<lambda>(a, x, lo, hi). hi - lo)") auto

declare bisect_loop.simps [simp del]

definition bisect_left :: "int list \<Rightarrow> int \<Rightarrow> nat" where
  "bisect_left a x = bisect_loop a x 0 (length a)"

definition find_first :: "int list \<Rightarrow> int \<Rightarrow> nat" where
  "find_first a tgt = bisect_left a tgt"

subsection \<open>Dense arrays\<close>

text \<open>
  A four-dimensional array is its shape and its cells, read by index.  Cells outside the
  shape are never written and stay \<open>0\<close>.  \<open>chunks\<close> has dtype \<open>int8\<close>: its cells are
  \<open>8 word\<close>, read as signed by \<open>sint\<close>, and \<open>+\<close> wraps around.
\<close>

type_synonym index = "nat \<times> nat \<times> nat \<times> nat"

record 'a ndarray =
  shape :: index
  cells :: "index \<Rightarrow> 'a"

type_synonym int8 = "8 word"
type_synonym int64 = "64 word"

definition zeros :: "index \<Rightarrow> int8 ndarray" where
  "zeros sh = \<lparr>shape = sh, cells = (\<lambda>_. 0)\<rparr>"

text \<open>
  An index into an axis of length \<open>n\<close>: numpy accepts \<open>-n \<le> k < n\<close>, a negative index
  counting from the end, and raises \<open>IndexError\<close> otherwise.
\<close>

definition norm_index :: "nat \<Rightarrow> int \<Rightarrow> nat option" where
  "norm_index n k =
     (if 0 \<le> k \<and> k < int n then Some (nat k)
      else if - int n \<le> k \<and> k < 0 then Some (nat (k + int n))
      else None)"

definition norm_addr :: "nat \<times> nat \<times> nat \<Rightarrow> int \<times> int \<times> int \<Rightarrow> (nat \<times> nat \<times> nat) option" where
  "norm_addr sz a =
     (case sz of (C, H, W) \<Rightarrow> (case a of (p, x, y) \<Rightarrow>
        (case norm_index C p of None \<Rightarrow> None | Some p' \<Rightarrow>
        (case norm_index H x of None \<Rightarrow> None | Some x' \<Rightarrow>
        (case norm_index W y of None \<Rightarrow> None | Some y' \<Rightarrow> Some (p', x', y'))))))"

text \<open>
  \<open>np.add.at(chunks, (i, ee[:, 0], ee[:, 1], ee[:, 2]), 1)\<close>: one unbuffered increment per
  row of \<open>ee\<close>, in the bin \<open>i\<close>.
\<close>

fun add_at :: "int8 ndarray \<Rightarrow> nat \<Rightarrow> (int \<times> int \<times> int) list \<Rightarrow> error + int8 ndarray" where
  "add_at chunks i [] = Inr chunks"
| "add_at chunks i (a # ee) =
     (case norm_addr (snd (shape chunks)) a of
        None \<Rightarrow> Inl IndexError
      | Some a' \<Rightarrow>
          add_at (chunks\<lparr>cells := (cells chunks)((i, a') := cells chunks (i, a') + 1)\<rparr>) i ee)"

subsection \<open>The binning transforms\<close>

text \<open>
  \<open>ToCountFrame.__call__\<close> and \<open>ToEventSum.__call__\<close> run the same loop over
  \<open>enumerate(range(0, T))\<close>; they differ in the search bound, \<open>t + 1\<close> in the first and
  \<open>t\<close> in the second, which is the parameter \<open>ub\<close> here.  \<open>times[idx_end:]\<close> is
  \<open>drop idx_end times\<close> and \<open>addrs[idx_start:idx_end]\<close> is
  \<open>take (idx_end - idx_start) (drop idx_start addrs)\<close>.
\<close>

fun bin_loop ::
  "(int \<Rightarrow> int) \<Rightarrow> int list \<Rightarrow> (int \<times> int \<times> int) list \<Rightarrow> (nat \<times> int) list
     \<Rightarrow> nat \<Rightarrow> nat \<Rightarrow> int8 ndarray \<Rightarrow> error + int8 ndarray" where
  "bin_loop ub times' addrs [] idx_start idx_end chunks = Inr chunks"
| "bin_loop ub times' addrs ((i, t) # its) idx_start idx_end chunks =
     (let idx_end' = idx_end + find_first (drop idx_end times') (ub t) in
      if idx_end' > idx_start then
        (case add_at chunks i (take (idx_end' - idx_start) (drop idx_start addrs)) of
           Inl err \<Rightarrow> Inl err
         | Inr chunks' \<Rightarrow> bin_loop ub times' addrs its idx_end' idx_end' chunks')
      else bin_loop ub times' addrs its idx_end' idx_end' chunks)"

text \<open>\<open>enumerate(range(0, T))\<close>; the range is empty for \<open>T \<le> 0\<close>.\<close>

definition enum_range :: "int \<Rightarrow> (nat \<times> int) list" where
  "enum_range T = map (\<lambda>i. (i, int i)) [0..<nat T]"

text \<open>
  The configuration of both classes is \<open>self.T\<close> and \<open>self.size\<close>, a list of three axis
  lengths \<open>[C, H, W]\<close> (the four-index access of \<open>np.add.at\<close> fixes the rank).  \<open>times[0]\<close> raises
  \<open>IndexError\<close> on an array without rows.
\<close>

record binner =
  binner_T :: int
  binner_size :: "nat \<times> nat \<times> nat"

definition binner_chunks :: "(int \<Rightarrow> int) \<Rightarrow> binner \<Rightarrow> event list \<Rightarrow> error + int8 ndarray" where
  "binner_chunks ub self tmad =
     (let times' = map time_of tmad in
      if times' = [] then Inl IndexError
      else
        let addrs = map addr_of tmad;
            ts = enum_range (binner_T self);
            chunks = zeros (length ts, binner_size self)
        in bin_loop ub times' addrs ts 0 0 chunks)"

definition ToCountFrame_call :: "binner \<Rightarrow> event list \<Rightarrow> error + int8 ndarray" where
  "ToCountFrame_call self tmad = binner_chunks (\<lambda>t. t + 1) self tmad"

text \<open>The array \<open>chunks\<close> of \<open>ToEventSum.__call__\<close> before the final sum.\<close>

definition ToEventSum_chunks :: "binner \<Rightarrow> event list \<Rightarrow> error + int8 ndarray" where
  "ToEventSum_chunks self tmad = binner_chunks (\<lambda>t. t) self tmad"

text \<open>
  \<open>chunks.sum(axis=0, keepdims=True)\<close>: numpy adds \<open>int8\<close> cells in the platform integer,
  \<open>int64\<close>; the first axis has length 1 afterwards.
\<close>

definition sum_axis0 :: "int8 ndarray \<Rightarrow> int64 ndarray" where
  "sum_axis0 chunks =
     (case shape chunks of (n, sz) \<Rightarrow>
        \<lparr>shape = (1, sz),
         cells = (\<lambda>(i, a). if i = 0 then (\<Sum>t\<leftarrow>[0..<n]. scast (cells chunks (t, a))) else 0)\<rparr>)"

definition ToEventSum_call :: "binner \<Rightarrow> event list \<Rightarrow> error + int64 ndarray" where
  "ToEventSum_call self tmad =
     (case ToEventSum_chunks self tmad of
        Inl err \<Rightarrow> Inl err
      | Inr chunks \<Rightarrow> Inr (sum_axis0 chunks))"

subsection \<open>What the binners are compared with\<close>

text \<open>
  The sum of an \<open>int8\<close> array over every cell of its shape, each cell read as the signed
  number it holds.
\<close>

definition all_indices :: "index \<Rightarrow> index list" where
  "all_indices sh =
     (case sh of (n, C, H, W) \<Rightarrow>
        List.product [0..<n] (List.product [0..<C] (List.product [0..<H] [0..<W])))"

definition total_count :: "int8 ndarray \<Rightarrow> int" where
  "total_count chunks = (\<Sum>idx\<leftarrow>all_indices (shape chunks). sint (cells chunks idx))"

text \<open>
  The bin of a timestamp.  With the bound \<open>t + 1\<close> the events of bin \<open>i\<close> are those with
  \<open>i \<le> time < i + 1\<close>, and bin \<open>0\<close> also takes every earlier event; with the bound \<open>t\<close>
  they are those with \<open>i - 1 \<le> time < i\<close>, and bin \<open>0\<close> takes the events before \<open>0\<close>.
  A timestamp has at most one bin.
\<close>

definition count_bin :: "int \<Rightarrow> int \<Rightarrow> nat option" where
  "count_bin n t = (if 0 < n \<and> t < n then Some (nat t) else None)"

definition sum_bin :: "int \<Rightarrow> int \<Rightarrow> nat option" where
  "sum_bin n t = (if 0 < n \<and> t + 1 < n then Some (nat (t + 1)) else None)"

text \<open>A cell of the array a call returns; \<open>None\<close> when the call raised.\<close>

definition cell_of :: "error + 'a ndarray \<Rightarrow> index \<Rightarrow> 'a option" where
  "cell_of r idx = (case r of Inl err \<Rightarrow> None | Inr c \<Rightarrow> Some (cells c idx))"

text \<open>The events of a list that land in the cell \<open>a\<close> of the bin \<open>i\<close>.\<close>

definition events_in ::
  "(int \<Rightarrow> nat option) \<Rightarrow> nat \<times> nat \<times> nat \<Rightarrow> event list \<Rightarrow> nat \<Rightarrow> nat \<times> nat \<times> nat \<Rightarrow> event list" where
  "events_in bin sz tmad i a =
     filter (\<lambda>e. bin (time_of e) = Some i \<and> norm_addr sz (addr_of e) = Some a) tmad"

section \<open>Cropping transforms\<close>

subsection \<open>\<open>Crop\<close>\<close>

text \<open>
  \<open>Crop.__call__\<close> reads the name \<open>high_crop\<close>, which is neither a parameter nor assigned in
  the function: Python looks it up among the module's globals (no builtin has this name)
  and raises \<open>NameError\<close> when it is not bound.  The globals of \<open>transforms.py\<close> are its
  imports, \<open>find_first\<close> and its classes.
\<close>

datatype pyobj = Module | Class | Function | IntVal int

definition module_globals :: "string \<rightharpoonup> pyobj" where
  "module_globals = map_of
     [(''np'', Module), (''pd'', Module), (''torch'', Module), (''bisect'', Module),
      (''Compose'', Class), (''ToTensor'', Class), (''Normalize'', Class), (''Lambda'', Class),
      (''find_first'', Function), (''Jitter'', Class), (''toOneHot'', Class),
      (''Downsample'', Class), (''Crop'', Class), (''CropDims'', Class),
      (''CropCenter'', Class), (''Attention'', Class), (''ToChannelHeightWidth'', Class),
      (''ToCountFrame'', Class), (''ToEventSum'', Class), (''FilterEvents'', Class),
      (''ExpFilterEvents'', Class), (''Rescale'', Class), (''Repeat'', Class)]"

record Crop =
  low :: int
  high :: int

definition columns :: "event \<Rightarrow> int list" where
  "columns e = (case e of (t, p, x, y) \<Rightarrow> [t, p, x, y])"

text \<open>
  \<open>np.delete(tmad, np.where(np.any(c, axis=1)), 0)\<close> keeps the rows where no column
  satisfies \<open>c\<close>.  A bound that is not a number cannot be compared with an array.
\<close>

definition Crop_call :: "(string \<rightharpoonup> pyobj) \<Rightarrow> Crop \<Rightarrow> event list \<Rightarrow> error + event list" where
  "Crop_call globals self tmad =
     (case globals ''high_crop'' of
        None \<Rightarrow> Inl (NameError ''high_crop'')
      | Some (IntVal high_crop) \<Rightarrow>
          (let tmad1 = filter (\<lambda>e. \<not> list_ex (\<lambda>v. v > high_crop) (columns e)) tmad;
               tmad2 = filter (\<lambda>e. \<not> list_ex (\<lambda>v. v < high_crop) (columns e)) tmad1
           in Inr tmad2)
      | Some _ \<Rightarrow> Inl TypeError)"

subsection \<open>\<open>CropDims\<close>\<close>

text \<open>
  A column of the event array, by its index \<open>0..3\<close>.
\<close>

fun get_col :: "nat \<Rightarrow> event \<Rightarrow> int" where
  "get_col d (t, p, x, y) = (if d = 0 then t else if d = 1 then p else if d = 2 then x else y)"

fun set_col :: "nat \<Rightarrow> int \<Rightarrow> event \<Rightarrow> event" where
  "set_col d v (t, p, x, y) =
     (if d = 0 then (v, p, x, y) else if d = 1 then (t, v, x, y)
      else if d = 2 then (t, p, v, y) else (t, p, x, v))"

record CropDims =
  low_crop :: "int list"
  high_crop :: "int list"
  dims :: "int list"

text \<open>
  The loop over \<open>enumerate(self.dims)\<close>.  \<open>tmad[:, d]\<close> raises \<open>IndexError\<close> for a column
  index outside \<open>-4..3\<close>, and \<open>self.high_crop[i]\<close>, \<open>self.low_crop[i]\<close> raise it past the end
  of the list.  \<open>np.delete\<close> returns a new array, so the assignment to \<open>tmad[:, d]\<close> writes
  to the function's own copy.
\<close>

fun CropDims_loop :: "CropDims \<Rightarrow> (nat \<times> int) list \<Rightarrow> event list \<Rightarrow> error + event list" where
  "CropDims_loop self [] tmad = Inr tmad"
| "CropDims_loop self ((i, d) # ids) tmad =
     (case norm_index 4 d of
        None \<Rightarrow> Inl IndexError
      | Some d' \<Rightarrow>
          if i \<ge> length (high_crop self) then Inl IndexError
          else
            let tmad1 = filter (\<lambda>e. \<not> get_col d' e \<ge> high_crop self ! i) tmad in
            if i \<ge> length (low_crop self) then Inl IndexError
            else
              let tmad2 = filter (\<lambda>e. \<not> get_col d' e < low_crop self ! i) tmad1;
                  tmad3 = map (\<lambda>e. set_col d' (get_col d' e - low_crop self ! i) e) tmad2
              in CropDims_loop self ids tmad3)"

definition CropDims_call :: "CropDims \<Rightarrow> event list \<Rightarrow> error + event list" where
  "CropDims_call self tmad = CropDims_loop self (zip [0..<length (dims self)] (dims self)) tmad"

text \<open>
  Bounds are valid when every configured dimension is a column of the array, no column is
  configured twice and both bound lists have an entry for every dimension.
\<close>

definition valid_CropDims :: "CropDims \<Rightarrow> bool" where
  "valid_CropDims self =
     (length (dims self) \<le> length (low_crop self) \<and>
      length (dims self) \<le> length (high_crop self) \<and>
      list_all (\<lambda>d. norm_index 4 d \<noteq> None) (dims self) \<and>
      distinct (map (norm_index 4) (dims self)))"

subsection \<open>\<open>CropCenter\<close>, with the arrays in a store\<close>

text \<open>
  \<open>CropCenter.__call__\<close> assigns to a slice of its argument, so the caller's array is part of
  the state.  The store holds the arrays; an array's address is its position, and a new
  array is put at the end.
\<close>

type_synonym store = "event list list"

definition alloc :: "store \<Rightarrow> event list \<Rightarrow> nat \<times> store" where
  "alloc s arr = (length s, s @ [arr])"

type_synonym uint32 = "32 word"

record CropCenter =
  center :: "uint32 \<times> uint32"
  att_shape :: "uint32 \<times> uint32"
  translation :: "uint32 \<times> uint32"

text \<open>
  \<open>center - self.att_shape // 2\<close> is computed in \<open>int64\<close> from the list \<open>center\<close> and the
  \<open>uint32\<close> array, and \<open>astype(np.uint32)\<close> reduces it modulo \<open>2^32\<close>.
\<close>

definition CropCenter_init :: "int \<times> int \<Rightarrow> int \<times> int \<times> int \<Rightarrow> CropCenter" where
  "CropCenter_init c sz =
     (case c of (cx, cy) \<Rightarrow> case sz of (s0, s1, s2) \<Rightarrow>
        (let att = (word_of_int s1 :: uint32, word_of_int s2 :: uint32) in
         \<lparr>center = (word_of_int cx, word_of_int cy),
          att_shape = att,
          translation = (word_of_int (cx - uint (fst att div 2)),
                         word_of_int (cy - uint (snd att div 2)))\<rparr>))"

text \<open>
  The call on the array at address \<open>a\<close>: \<open>tmad[:, 2:] -= trans\<close> writes the translated
  coordinates into that array; each \<open>np.delete\<close> makes a new array.  The result is the
  address of the returned array and the store after the call; \<open>None\<close> when \<open>a\<close> is not the
  address of an array.
\<close>

definition CropCenter_call :: "CropCenter \<Rightarrow> nat \<Rightarrow> store \<Rightarrow> (nat \<times> store) option" where
  "CropCenter_call self a s =
     (if a < length s then
        (let tx = uint (fst (translation self)); ty = uint (snd (translation self));
             s1 = s[a := map (\<lambda>(t, p, x, y). (t, p, x - tx, y - ty)) (s ! a)];
             (b, s2) = alloc s1
               (filter (\<lambda>(t, p, x, y). \<not> (x \<ge> uint (fst (att_shape self)) \<or>
                                        y \<ge> uint (snd (att_shape self)))) (s1 ! a));
             (c, s3) = alloc s2 (filter (\<lambda>(t, p, x, y). \<not> (x < 0 \<or> y < 0)) (s2 ! b))
         in Some (c, s3))
      else None)"

section \<open>\<open>toOneHot\<close>\<close>

text \<open>
  The labels are an integer array of rank 1 or 2.  \<open>y_onehot\<close> has \<open>integers.shape[0]\<close> rows
  and \<open>num_classes\<close> columns, all zero.  \<open>scatter_(1, index, 1)\<close> writes \<open>1\<close> at
  \<open>[i][index[i][j]]\<close> for every position \<open>(i, j)\<close> of the index; torch raises \<open>RuntimeError\<close>
  when the index has not the rank of the tensor it writes to, and when an index is outside
  \<open>0..num_classes-1\<close>.
\<close>

datatype labels = Rank1 "int list" | Rank2 "int list list"

record toOneHot =
  num_classes :: nat

fun scatter_row :: "real list \<Rightarrow> int list \<Rightarrow> real \<Rightarrow> error + real list" where
  "scatter_row r [] v = Inr r"
| "scatter_row r (k # ks) v =
     (if 0 \<le> k \<and> k < int (length r) then scatter_row (r[nat k := v]) ks v
      else Inl RuntimeError)"

fun scatter_rows :: "real list list \<Rightarrow> int list list \<Rightarrow> real \<Rightarrow> error + real list list" where
  "scatter_rows rs [] v = Inr rs"
| "scatter_rows [] (ix # ixs) v = Inl RuntimeError"
| "scatter_rows (r # rs) (ix # ixs) v =
     (case scatter_row r ix v of
        Inl err \<Rightarrow> Inl err
      | Inr r' \<Rightarrow>
          (case scatter_rows rs ixs v of
             Inl err \<Rightarrow> Inl err
           | Inr rs' \<Rightarrow> Inr (r' # rs')))"

definition toOneHot_call :: "toOneHot \<Rightarrow> labels \<Rightarrow> error + real list list" where
  "toOneHot_call self integers =
     (case integers of
        Rank1 ls \<Rightarrow> Inl RuntimeError
      | Rank2 rows \<Rightarrow>
          (let y_onehot = replicate (length rows) (replicate (num_classes self) 0)
           in scatter_rows y_onehot rows 1))"

section \<open>\<open>ExpFilterEvents\<close>\<close>

text \<open>
  The kernel has shape \<open>(channels, 1, len(t), 1, 1)\<close>: one row of \<open>len(t)\<close> weights per
  channel.  The weights are real numbers here; the rounding of \<open>float32\<close> is not modelled.
\<close>

record kernel5 =
  k_channels :: nat
  k_length :: nat
  k_weights :: "real list list"

record FilterEvents =
  kernel :: kernel5
  groups :: nat
  tpad :: nat

definition FilterEvents_init :: "kernel5 \<Rightarrow> nat \<Rightarrow> nat option \<Rightarrow> FilterEvents" where
  "FilterEvents_init k g tp =
     \<lparr>kernel = k, groups = g,
      tpad = (case tp of None \<Rightarrow> k_length k div 2 | Some v \<Rightarrow> v)\<rparr>"

definition ExpFilterEvents_init :: "nat \<Rightarrow> real \<Rightarrow> nat \<Rightarrow> nat option \<Rightarrow> FilterEvents" where
  "ExpFilterEvents_init length' tau channels tp =
     (let t = map real [0..<length'];
          exp_kernel = map (\<lambda>u. exp (- u / tau)) t;
          exp_kernel = map (\<lambda>w. w / sum_list exp_kernel) exp_kernel;
          exp_kernel = rev exp_kernel;
          groups' = 2;
          k = \<lparr>k_channels = channels, k_length = length t,
               k_weights = replicate channels exp_kernel\<rparr>
      in FilterEvents_init k groups' tp)"

section \<open>\<open>Jitter\<close>\<close>

text \<open>
  A frame tensor of rank 5, read as \<open>data[n, t, c, x, y]\<close>.  The three values drawn from
  \<open>np.random\<close> in a call are an argument of the model; angles and coordinates are real
  numbers.  Python's \<open>round\<close> rounds a half to the even neighbour.
\<close>

type_synonym index5 = "nat \<times> nat \<times> nat \<times> nat \<times> nat"

record tensor5 =
  shape5 :: index5
  at5 :: "index5 \<Rightarrow> real"

record Jitter =
  Jitter_xs :: int
  Jitter_ys :: int
  Jitter_th :: real
  Jitter_size :: "nat \<times> nat \<times> nat"

record draws =
  randint_x :: int
  randint_y :: int
  rand_a :: real

definition py_round :: "real \<Rightarrow> int" where
  "py_round r =
     (let f = \<lfloor>r\<rfloor>; d = r - of_int f in
      if d < 1 / 2 then f else if d > 1 / 2 then f + 1 else if even f then f else f + 1)"

definition clamp_coord :: "nat \<Rightarrow> int \<Rightarrow> nat" where
  "clamp_coord n v = (let v1 = (if v < 0 then 0 else v) in
                      nat (if v1 > int n - 1 then int n - 1 else v1))"

text \<open>
  \<open>jittered[:, :, :, xnew, ynew] = data[:, :, :, x, y]\<close>: reading \<open>data\<close> outside its last
  two axes raises \<open>IndexError\<close>; the channel axis of \<open>data\<close> must have the length of
  \<open>size[0]\<close>, or length 1 and is then broadcast, else torch raises \<open>RuntimeError\<close>.
\<close>

fun jitter_loop ::
  "real \<Rightarrow> real \<Rightarrow> int \<Rightarrow> int \<Rightarrow> nat \<times> nat \<times> nat \<Rightarrow> tensor5 \<Rightarrow> (nat \<times> nat) list \<Rightarrow> tensor5
     \<Rightarrow> error + tensor5" where
  "jitter_loop sinTh cosTh xjitter yjitter sz data [] jittered = Inr jittered"
| "jitter_loop sinTh cosTh xjitter yjitter sz data ((x, y) # rest) jittered =
     (case sz of (s0, s1, s2) \<Rightarrow> case shape5 data of (dn, dt, dc, dx, dy) \<Rightarrow>
        (let xnew = clamp_coord s1 (py_round (real x * cosTh - real y * sinTh + of_int xjitter));
             ynew = clamp_coord s2 (py_round (real x * sinTh + real y * cosTh + of_int yjitter))
         in if \<not> (x < dx \<and> y < dy) then Inl IndexError
            else if dc \<noteq> s0 \<and> dc \<noteq> 1 then Inl RuntimeError
            else jitter_loop sinTh cosTh xjitter yjitter sz data rest
                   (jittered\<lparr>at5 := (\<lambda>(n, t, c, x', y').
                       if x' = xnew \<and> y' = ynew
                       then at5 data (n, t, if dc = 1 then 0 else c, x, y)
                       else at5 jittered (n, t, c, x', y'))\<rparr>)))"

text \<open>\<open>np.random.randint(high)\<close> raises \<open>ValueError\<close> unless \<open>0 < high\<close>.\<close>

definition Jitter_call :: "Jitter \<Rightarrow> draws \<Rightarrow> tensor5 \<Rightarrow> error + tensor5" where
  "Jitter_call self rnd data =
     (if Jitter_xs self = 0 \<and> Jitter_ys self = 0 \<and> Jitter_th self = 0 then Inr data
      else if 2 * Jitter_xs self \<le> 0 \<or> 2 * Jitter_ys self \<le> 0 then Inl ValueError
      else
        (case Jitter_size self of (s0, s1, s2) \<Rightarrow> case shape5 data of (dn, dt, dc, dx, dy) \<Rightarrow>
           (let xjitter = randint_x rnd - Jitter_xs self;
                yjitter = randint_y rnd - Jitter_ys self;
                ajitter = (rand_a rnd - 1 / 2) * Jitter_th self / 180 * pi;
                sinTh = sin ajitter;
                cosTh = cos ajitter;
                jittered = \<lparr>shape5 = (dn, dt, s0, s1, s2), at5 = (\<lambda>_. 0)\<rparr>
            in jitter_loop sinTh cosTh xjitter yjitter (s0, s1, s2) data
                 (concat (map (\<lambda>x. map (\<lambda>y. (x, y)) [0..<s2]) [0..<s1])) jittered)))"

section \<open>Empty input\<close>

text \<open>
  C5.  On the event list without rows, \<open>ToCountFrame\<close> and \<open>ToEventSum\<close> both raise
  \<open>IndexError\<close> (at \<open>times[0]\<close>) and return no array.
\<close>

theorem binners_empty_IndexError:
  "ToCountFrame_call self [] = Inl IndexError \<and> ToEventSum_call self [] = Inl IndexError"
  by (simp add: ToCountFrame_call_def ToEventSum_call_def ToEventSum_chunks_def
      binner_chunks_def)

section \<open>The undefined name in \<open>Crop\<close>\<close>

text \<open>
  C6.  With the globals of the module, \<open>Crop.__call__\<close> raises \<open>NameError\<close> for \<open>high_crop\<close>
  on every configuration and every event list; it never returns a cropped list, and the
  bounds \<open>self.low\<close> and \<open>self.high\<close> have no part in the result.
\<close>

theorem Crop_call_NameError:
  "Crop_call module_globals self tmad = Inl (NameError ''high_crop'')"
  by (simp add: Crop_call_def module_globals_def)

section \<open>The group count of \<open>ExpFilterEvents\<close>\<close>

text \<open>
  C9 (the code at a failing input).  Constructed for three channels, the filter has the
  group count 2, not 3: \<open>groups = 2\<close> is a constant of the constructor.
\<close>

theorem ExpFilterEvents_groups_three_channels:
  "groups (ExpFilterEvents_init 5 200 3 None) = 2 \<and>
   k_channels (kernel (ExpFilterEvents_init 5 200 3 None)) = 3"
  by (simp add: ExpFilterEvents_init_def FilterEvents_init_def Let_def)

section \<open>\<open>Jitter\<close> without jitter\<close>

text \<open>
  C10.  With \<open>xs = 0\<close>, \<open>ys = 0\<close> and \<open>th = 0\<close>, \<open>Jitter\<close> returns its input tensor unchanged,
  for every \<open>size\<close>, every state of the random generator and every input.
\<close>

theorem Jitter_zero_identity:
  "Jitter_call \<lparr>Jitter_xs = 0, Jitter_ys = 0, Jitter_th = 0, Jitter_size = sz\<rparr> rnd data
     = Inr data"
  by (simp add: Jitter_call_def)

section \<open>One-hot labels\<close>

lemma one_hot_row:
  "0 \<le> l \<Longrightarrow> l < int n \<Longrightarrow>
   (replicate n (0::real))[nat l := 1] = map (\<lambda>j. if int j = l then 1 else 0) [0..<n]"
  by (rule nth_equalityI) (auto simp: nth_list_update)

lemma scatter_rows_column:
  "\<forall>l\<in>set ls. 0 \<le> l \<and> l < int n \<Longrightarrow>
   scatter_rows (replicate (length ls) (replicate n 0)) (map (\<lambda>l. [l]) ls) 1
     = Inr (map (\<lambda>l. map (\<lambda>j. if int j = l then 1 else 0) [0..<n]) ls)"
  by (induction ls) (simp_all add: one_hot_row)

text \<open>
  C8, as stated.  On the labels \<open>[0, 2]\<close>, an array of rank 1, \<open>toOneHot(3)\<close> returns no
  matrix: \<open>scatter_\<close> refuses an index of rank 1 for the matrix \<open>y_onehot\<close> of rank 2.
\<close>

theorem toOneHot_rank1_counterexample:
  "toOneHot_call \<lparr>num_classes = 3\<rparr> (Rank1 [0, 2]) = Inl RuntimeError"
  by (simp add: toOneHot_call_def)

text \<open>
  C8, amended.  On \<open>n\<close> labels given as a column, an array of shape \<open>(n, 1)\<close> with every
  label in \<open>0..num_classes-1\<close> (what \<open>Repeat\<close> hands over), \<open>toOneHot\<close> returns the matrix
  of shape \<open>(n, num_classes)\<close> whose row \<open>i\<close> has \<open>1\<close> at the index of label \<open>i\<close> and \<open>0\<close>
  elsewhere; for the column \<open>[[0], [2]]\<close> and three classes it is
  \<open>[[1, 0, 0], [0, 0, 1]]\<close>.
\<close>

theorem toOneHot_column:
  assumes "\<forall>l\<in>set ls. 0 \<le> l \<and> l < int (num_classes self)"
  shows "toOneHot_call self (Rank2 (map (\<lambda>l. [l]) ls))
     = Inr (map (\<lambda>l. map (\<lambda>j. if int j = l then 1 else 0) [0..<num_classes self]) ls)"
  using assms by (simp add: toOneHot_call_def scatter_rows_column)

theorem toOneHot_column_witness:
  "toOneHot_call \<lparr>num_classes = 3\<rparr> (Rank2 [[0], [2]]) = Inr [[1, 0, 0], [0, 0, 1]]"
  using toOneHot_column [of "[0, 2]" "\<lparr>num_classes = 3\<rparr>"]
  by (simp add: upt_rec)

section \<open>The argument of \<open>CropCenter\<close>\<close>

text \<open>
  C4 (the code at a failing input).  \<open>CropCenter(center=[3, 3], size=[2, 2, 2])\<close> has the
  translation \<open>(2, 2)\<close>.  Called on the array \<open>[[0, 0, 3, 3]]\<close> at address 0, it returns a
  new array (address 2), and the caller's array at address 0 holds \<open>[[0, 0, 1, 1]]\<close>
  afterwards: the coordinates of the argument were translated in place.
\<close>

theorem CropCenter_mutates_argument:
  "CropCenter_call (CropCenter_init (3, 3) (2, 2, 2)) 0 [[(0, 0, 3, 3)]]
     = Some (2, [[(0, 0, 1, 1)], [(0, 0, 1, 1)], [(0, 0, 1, 1)]])"
  by (simp add: CropCenter_call_def CropCenter_init_def alloc_def)

section \<open>The bounds of \<open>CropDims\<close>\<close>

lemma norm_index_less: "norm_index n k = Some d \<Longrightarrow> d < n"
  by (auto simp: norm_index_def split: if_splits)

lemma get_set_col_same: "d < 4 \<Longrightarrow> get_col d (set_col d v e) = v"
  by (cases e) auto

lemma get_set_col_other:
  "c < 4 \<Longrightarrow> d < 4 \<Longrightarrow> c \<noteq> d \<Longrightarrow> get_col c (set_col d v e) = get_col c e"
  by (cases e) auto

text \<open>A pass of the loop leaves the columns it is not configured for as they are.\<close>

lemma CropDims_loop_preserves:
  assumes "CropDims_loop self ids tmad = Inr out"
    and "\<forall>(i, d)\<in>set ids. norm_index 4 d \<noteq> Some c"
    and "c < 4"
    and "\<forall>e\<in>set tmad. P (get_col c e)"
  shows "\<forall>e\<in>set out. P (get_col c e)"
  using assms
proof (induction ids arbitrary: tmad)
  case Nil
  then show ?case by simp
next
  case (Cons id ids)
  obtain i d where id: "id = (i, d)" by (cases id)
  from Cons.prems(1) id obtain d' where d': "norm_index 4 d = Some d'"
    by (auto split: option.splits)
  have d'4: "d' < 4" using d' by (rule norm_index_less)
  have ne: "c \<noteq> d'" using Cons.prems(2) id d' by auto
  let ?t3 = "map (\<lambda>e. set_col d' (get_col d' e - low_crop self ! i) e)
      (filter (\<lambda>e. \<not> get_col d' e < low_crop self ! i)
        (filter (\<lambda>e. \<not> get_col d' e \<ge> high_crop self ! i) tmad))"
  from Cons.prems(1) id d' have run: "CropDims_loop self ids ?t3 = Inr out"
    by (auto simp: Let_def split: if_splits)
  have "\<forall>e\<in>set ?t3. P (get_col c e)"
    using Cons.prems(4) \<open>c < 4\<close> d'4 ne by (auto simp: get_set_col_other)
  with Cons.IH [OF run] Cons.prems(2) \<open>c < 4\<close> show ?case by auto
qed

lemma CropDims_loop_bounds:
  assumes "\<forall>(i, d)\<in>set ids. i < length (low_crop self) \<and> i < length (high_crop self)
              \<and> norm_index 4 d \<noteq> None"
    and "distinct (map (\<lambda>(i, d). norm_index 4 d) ids)"
  shows "\<exists>out. CropDims_loop self ids tmad = Inr out \<and>
           (\<forall>e\<in>set out. \<forall>(i, d)\<in>set ids. \<forall>d'. norm_index 4 d = Some d' \<longrightarrow>
              0 \<le> get_col d' e \<and> get_col d' e < high_crop self ! i - low_crop self ! i)"
  using assms
proof (induction ids arbitrary: tmad)
  case Nil
  then show ?case by simp
next
  case (Cons id ids)
  obtain i d where id: "id = (i, d)" by (cases id)
  from Cons.prems(1) id obtain d' where d': "norm_index 4 d = Some d'" by auto
  have d'4: "d' < 4" using d' by (rule norm_index_less)
  from Cons.prems(1) id
  have il: "i < length (low_crop self)" and ih: "i < length (high_crop self)"
    by auto
  let ?t3 = "map (\<lambda>e. set_col d' (get_col d' e - low_crop self ! i) e)
      (filter (\<lambda>e. \<not> get_col d' e < low_crop self ! i)
        (filter (\<lambda>e. \<not> get_col d' e \<ge> high_crop self ! i) tmad))"
  have step: "CropDims_loop self (id # ids) tmad = CropDims_loop self ids ?t3"
    using id d' il ih by (simp add: Let_def)
  from Cons.prems have "\<exists>out. CropDims_loop self ids ?t3 = Inr out \<and>
           (\<forall>e\<in>set out. \<forall>(i, d)\<in>set ids. \<forall>d'. norm_index 4 d = Some d' \<longrightarrow>
              0 \<le> get_col d' e \<and> get_col d' e < high_crop self ! i - low_crop self ! i)"
    by (intro Cons.IH) auto
  then obtain out where run: "CropDims_loop self ids ?t3 = Inr out"
    and rest: "\<forall>e\<in>set out. \<forall>(i, d)\<in>set ids. \<forall>d'. norm_index 4 d = Some d' \<longrightarrow>
              0 \<le> get_col d' e \<and> get_col d' e < high_crop self ! i - low_crop self ! i"
    by blast
  have fresh: "\<forall>(j, c)\<in>set ids. norm_index 4 c \<noteq> Some d'"
    using Cons.prems(2) id d' by (auto simp: image_iff)
  have "\<forall>e\<in>set ?t3. (\<lambda>v. 0 \<le> v \<and> v < high_crop self ! i - low_crop self ! i) (get_col d' e)"
    using d'4 by (auto simp: get_set_col_same)
  from CropDims_loop_preserves [OF run fresh d'4 this]
  have head: "\<forall>e\<in>set out. 0 \<le> get_col d' e
      \<and> get_col d' e < high_crop self ! i - low_crop self ! i" .
  show ?case
    using step run rest head id d' by auto
qed

text \<open>
  C7, as stated.  With the bounds \<open>low_crop = [5]\<close>, \<open>high_crop = [10]\<close> on column 2, the
  event \<open>(0, 0, 7, 0)\<close> is kept and leaves as \<open>(0, 0, 2, 0)\<close>: after the subtraction its
  value 2 is below \<open>low_crop[0] = 5\<close>.
\<close>

theorem CropDims_literal_bounds_counterexample:
  "CropDims_call \<lparr>low_crop = [5], high_crop = [10], dims = [2]\<rparr> [(0, 0, 7, 0)]
     = Inr [(0, 0, 2, 0)]
   \<and> \<not> (5 \<le> get_col 2 (0, 0, 2, 0))"
  by (simp add: CropDims_call_def norm_index_def)

text \<open>
  C7, amended.  For valid bounds and every event list, \<open>CropDims\<close> returns an event list,
  and every event of it satisfies \<open>0 \<le> value < high_crop[i] - low_crop[i]\<close> in the column
  of each configured dimension \<open>i\<close>: the value before the subtraction was in
  \<open>low_crop[i] \<le> value < high_crop[i]\<close>.
\<close>

theorem CropDims_rebased_bounds:
  assumes "valid_CropDims self"
  shows "\<exists>out. CropDims_call self tmad = Inr out \<and>
           (\<forall>e\<in>set out. \<forall>i<length (dims self). \<forall>d'.
              norm_index 4 (dims self ! i) = Some d' \<longrightarrow>
              0 \<le> get_col d' e \<and> get_col d' e < high_crop self ! i - low_crop self ! i)"
proof -
  let ?ids = "zip [0..<length (dims self)] (dims self)"
  have a: "\<forall>(i, d)\<in>set ?ids. i < length (low_crop self) \<and> i < length (high_crop self)
              \<and> norm_index 4 d \<noteq> None"
    using assms by (auto simp: valid_CropDims_def list_all_iff set_zip)
  have "map (\<lambda>(i, d). norm_index 4 d) ?ids = map (norm_index 4) (dims self)"
    by (rule nth_equalityI) auto
  then have b: "distinct (map (\<lambda>(i, d). norm_index 4 d) ?ids)"
    using assms by (simp add: valid_CropDims_def)
  from CropDims_loop_bounds [OF a b, of tmad] obtain out
    where run: "CropDims_loop self ?ids tmad = Inr out"
      and bnd: "\<forall>e\<in>set out. \<forall>(i, d)\<in>set ?ids. \<forall>d'. norm_index 4 d = Some d' \<longrightarrow>
              0 \<le> get_col d' e \<and> get_col d' e < high_crop self ! i - low_crop self ! i"
    by blast
  have "(i, dims self ! i) \<in> set ?ids" if "i < length (dims self)" for i
    unfolding in_set_zip using that by (intro exI [of _ i]) simp
  with bnd have "\<forall>e\<in>set out. \<forall>i<length (dims self). \<forall>d'.
              norm_index 4 (dims self ! i) = Some d' \<longrightarrow>
              0 \<le> get_col d' e \<and> get_col d' e < high_crop self ! i - low_crop self ! i"
    by blast
  with run show ?thesis by (auto simp: CropDims_call_def)
qed

theorem CropDims_rebased_bounds_witness:
  "valid_CropDims \<lparr>low_crop = [5, 1], high_crop = [10, 3], dims = [2, -1]\<rparr> \<and>
   CropDims_call \<lparr>low_crop = [5, 1], high_crop = [10, 3], dims = [2, -1]\<rparr>
       [(0, 0, 7, 2), (1, 0, 4, 2), (2, 1, 9, 3), (3, 1, 5, 1)]
     = Inr [(0, 0, 2, 1), (3, 1, 0, 0)] \<and>
   (\<exists>out. CropDims_call \<lparr>low_crop = [5, 1], high_crop = [10, 3], dims = [2, -1]\<rparr>
       [(0, 0, 7, 2), (1, 0, 4, 2), (2, 1, 9, 3), (3, 1, 5, 1)] = Inr out \<and>
      list_all (\<lambda>e. 0 \<le> get_col 2 e \<and> get_col 2 e < 10 - 5 \<and>
                    0 \<le> get_col 3 e \<and> get_col 3 e < 3 - 1) out)"
proof -
  let ?self = "\<lparr>low_crop = [5, 1], high_crop = [10, 3], dims = [2, -1]\<rparr>"
  have v: "valid_CropDims ?self"
    by (simp add: valid_CropDims_def norm_index_def)
  have r: "CropDims_call ?self [(0, 0, 7, 2), (1, 0, 4, 2), (2, 1, 9, 3), (3, 1, 5, 1)]
      = Inr [(0, 0, 2, 1), (3, 1, 0, 0)]"
    by (simp add: CropDims_call_def norm_index_def upt_rec)
  from CropDims_rebased_bounds [OF v, of "[(0, 0, 7, 2), (1, 0, 4, 2), (2, 1, 9, 3), (3, 1, 5, 1)]"]
  show ?thesis using v r by simp
qed

section \<open>The binary search on a sorted array\<close>

text \<open>
  On a sorted array the search returns the number of elements below the target; its
  result depends on the target only through the comparisons with the elements.
\<close>

lemma filter_length_split:
  assumes "n \<le> length a" "\<forall>k<n. P (a ! k)" "\<forall>k. n \<le> k \<and> k < length a \<longrightarrow> \<not> P (a ! k)"
  shows "length (filter P a) = n"
proof -
  have 1: "filter P (take n a) = take n a"
    using assms(1,2) by (auto simp: filter_id_conv in_set_conv_nth)
  have 2: "filter P (drop n a) = []"
    using assms(3) by (auto simp: filter_empty_conv in_set_conv_nth)
  have "filter P a = filter P (take n a @ drop n a)" by simp
  also have "\<dots> = take n a" using 1 2 by (simp del: append_take_drop_id)
  finally show ?thesis using assms(1) by simp
qed

lemma bisect_loop_sorted:
  assumes "sorted a" "lo \<le> hi" "hi \<le> length a" "\<forall>k<lo. a ! k < x"
    "\<forall>k. hi \<le> k \<and> k < length a \<longrightarrow> \<not> a ! k < x"
  shows "bisect_loop a x lo hi = length (filter (\<lambda>y. y < x) a)"
  using assms
proof (induction a x lo hi rule: bisect_loop.induct)
  case (1 a x lo hi)
  show ?case
  proof (cases "lo < hi")
    case False
    with "1.prems" have "lo = hi" by simp
    with "1.prems" have "length (filter (\<lambda>y. y < x) a) = lo"
      by (intro filter_length_split) auto
    with False show ?thesis by (simp add: bisect_loop.simps [of a x lo hi])
  next
    case True
    define mid where "mid = (lo + hi) div 2"
    have m: "lo \<le> mid" "mid < hi" using True by (auto simp: mid_def)
    show ?thesis
    proof (cases "a ! mid < x")
      case lt: True
      have "\<forall>k<mid + 1. a ! k < x"
      proof (intro allI impI)
        fix k assume "k < mid + 1"
        then have "a ! k \<le> a ! mid"
          using "1.prems"(1,3) m by (intro sorted_nth_mono) auto
        with lt show "a ! k < x" by simp
      qed
      with "1.IH"(1) [OF True mid_def [symmetric, THEN sym] lt] "1.prems" m
      have "bisect_loop a x (mid + 1) hi = length (filter (\<lambda>y. y < x) a)"
        by (simp add: mid_def)
      with True lt show ?thesis
        by (simp add: bisect_loop.simps [of a x lo hi] mid_def Let_def)
    next
      case ge: False
      have "\<forall>k. mid \<le> k \<and> k < length a \<longrightarrow> \<not> a ! k < x"
      proof (intro allI impI)
        fix k assume "mid \<le> k \<and> k < length a"
        then have "a ! mid \<le> a ! k"
          using "1.prems"(1) by (intro sorted_nth_mono) auto
        with ge show "\<not> a ! k < x" by simp
      qed
      with "1.IH"(2) [OF True mid_def [symmetric, THEN sym] ge] "1.prems" m
      have "bisect_loop a x lo mid = length (filter (\<lambda>y. y < x) a)"
        by (simp add: mid_def)
      with True ge show ?thesis
        by (simp add: bisect_loop.simps [of a x lo hi] mid_def Let_def)
    qed
  qed
qed

lemma find_first_sorted:
  "sorted a \<Longrightarrow> find_first a x = length (filter (\<lambda>y. y < x) a)"
  unfolding find_first_def bisect_left_def by (rule bisect_loop_sorted) auto



section \<open>The bins of a sorted event list\<close>

lemma sorted_filter_less_take:
  "sorted (map f xs) \<Longrightarrow>
   filter (\<lambda>e. f e < (b::int)) xs = take (length (filter (\<lambda>e. f e < b) xs)) xs"
proof (induction xs)
  case Nil
  then show ?case by simp
next
  case (Cons x xs)
  show ?case
  proof (cases "f x < b")
    case True
    with Cons show ?thesis by simp
  next
    case False
    with Cons.prems have "\<forall>e\<in>set xs. \<not> f e < b" by auto
    then have "filter (\<lambda>e. f e < b) xs = []" by (simp add: filter_empty_conv)
    with False show ?thesis by simp
  qed
qed

lemma sorted_filter_ge_drop:
  "sorted (map f xs) \<Longrightarrow>
   filter (\<lambda>e. \<not> f e < (b::int)) xs = drop (length (filter (\<lambda>e. f e < b) xs)) xs"
proof (induction xs)
  case Nil
  then show ?case by simp
next
  case (Cons x xs)
  show ?case
  proof (cases "f x < b")
    case True
    with Cons show ?thesis by simp
  next
    case False
    with Cons.prems have "\<forall>e\<in>set xs. \<not> f e < b" by auto
    then have "filter (\<lambda>e. f e < b) xs = []" "filter (\<lambda>e. \<not> f e < b) xs = xs"
      by (simp_all add: filter_empty_conv filter_id_conv)
    with False show ?thesis by simp
  qed
qed

text \<open>The rows between two search results are the events between the two bounds.\<close>

lemma sorted_slice_filter:
  assumes "sorted (map f xs)" "b1 \<le> b2"
  shows "take (length (filter (\<lambda>e. f e < b2) xs) - length (filter (\<lambda>e. f e < b1) xs))
           (drop (length (filter (\<lambda>e. f e < b1) xs)) xs)
         = filter (\<lambda>e. b1 \<le> f e \<and> f e < (b2::int)) xs"
proof -
  let ?n1 = "length (filter (\<lambda>e. f e < b1) xs)"
  let ?n2 = "length (filter (\<lambda>e. f e < b2) xs)"
  let ?R = "filter (\<lambda>e. \<not> f e < b1) xs"
  let ?M = "filter (\<lambda>e. b1 \<le> f e \<and> f e < b2) xs"
  have R: "drop ?n1 xs = ?R"
    using sorted_filter_ge_drop [OF assms(1), of b1] by simp
  have sR: "sorted (map f ?R)"
    using assms(1) by (simp add: sorted_wrt_filter sorted_map)
  have M: "filter (\<lambda>e. f e < b2) ?R = ?M"
    by (auto intro: filter_cong)
  have "length (filter (\<lambda>e. f e < b1) (filter (\<lambda>e. f e < b2) xs))
        + length (filter (\<lambda>e. \<not> f e < b1) (filter (\<lambda>e. f e < b2) xs)) = ?n2"
    by (rule sum_length_filter_compl)
  moreover have "filter (\<lambda>e. f e < b1) (filter (\<lambda>e. f e < b2) xs) = filter (\<lambda>e. f e < b1) xs"
    using assms(2) by (auto intro: filter_cong)
  moreover have "filter (\<lambda>e. \<not> f e < b1) (filter (\<lambda>e. f e < b2) xs) = ?M"
    by (auto intro: filter_cong)
  ultimately have "?n2 - ?n1 = length ?M" by simp
  then have "take (?n2 - ?n1) (drop ?n1 xs) = take (length (filter (\<lambda>e. f e < b2) ?R)) ?R"
    using R M by simp
  also have "\<dots> = filter (\<lambda>e. f e < b2) ?R"
    using sorted_filter_less_take [OF sR, of b2] by simp
  finally show ?thesis using M by simp
qed

lemma find_first_drop_sorted:
  assumes "sorted ts" "s = length (filter (\<lambda>y. y < b0) ts)" "b0 \<le> b"
  shows "s + find_first (drop s ts) b = length (filter (\<lambda>y. y < b) ts)"
proof -
  have d: "drop s ts = filter (\<lambda>y. \<not> y < b0) ts"
    using sorted_filter_ge_drop [of "\<lambda>y. y" ts b0] assms(1,2) by simp
  have "sorted (drop s ts)" using assms(1) by simp
  then have "find_first (drop s ts) b = length (filter (\<lambda>y. y < b) (drop s ts))"
    by (rule find_first_sorted)
  also have "filter (\<lambda>y. y < b) (drop s ts) = filter (\<lambda>y. \<not> y < b0) (filter (\<lambda>y. y < b) ts)"
    unfolding d by (auto intro: filter_cong)
  finally have 1: "find_first (drop s ts) b
      = length (filter (\<lambda>y. \<not> y < b0) (filter (\<lambda>y. y < b) ts))" .
  have 2: "filter (\<lambda>y. y < b0) (filter (\<lambda>y. y < b) ts) = filter (\<lambda>y. y < b0) ts"
    using assms(3) by (auto intro: filter_cong)
  have "length (filter (\<lambda>y. y < b0) (filter (\<lambda>y. y < b) ts))
        + length (filter (\<lambda>y. \<not> y < b0) (filter (\<lambda>y. y < b) ts))
        = length (filter (\<lambda>y. y < b) ts)"
    by (rule sum_length_filter_compl)
  with 1 2 assms(2) show ?thesis by simp
qed

lemma add_at_cells:
  assumes "\<forall>q\<in>set ee. norm_addr (snd (shape c)) q \<noteq> None"
  shows "\<exists>c'. add_at c i ee = Inr c' \<and> shape c' = shape c \<and>
           (\<forall>k a. cells c' (k, a) = cells c (k, a) +
              (if k = i then of_nat (length (filter (\<lambda>q. norm_addr (snd (shape c)) q = Some a) ee))
               else 0))"
  using assms
proof (induction ee arbitrary: c)
  case Nil
  then show ?case by simp
next
  case (Cons q ee)
  from Cons.prems obtain a' where a': "norm_addr (snd (shape c)) q = Some a'" by auto
  let ?c1 = "c\<lparr>cells := (cells c)((i, a') := cells c (i, a') + 1)\<rparr>"
  have "\<forall>q\<in>set ee. norm_addr (snd (shape ?c1)) q \<noteq> None" using Cons.prems by simp
  from Cons.IH [OF this] obtain c' where run: "add_at ?c1 i ee = Inr c'"
    and sh: "shape c' = shape ?c1"
    and ce: "\<forall>k a. cells c' (k, a) = cells ?c1 (k, a) +
              (if k = i then of_nat (length (filter (\<lambda>q. norm_addr (snd (shape ?c1)) q = Some a) ee))
               else 0)"
    by blast
  have "add_at c i (q # ee) = Inr c'" using a' run by simp
  moreover have "shape c' = shape c" using sh by simp
  moreover have "cells c' (k, a) = cells c (k, a) +
              (if k = i then of_nat (length (filter (\<lambda>q. norm_addr (snd (shape c)) q = Some a) (q # ee)))
               else 0)" for k a
    using ce [rule_format, of k a] a' by (cases "a' = a") simp_all
  ultimately show ?case by blast
qed

text \<open>
  One pass of the loop from a state reached by the search for the bound \<open>b0\<close>: the rows it
  adds are the events with \<open>b0 \<le> time < ub t\<close>.
\<close>

lemma bin_loop_step:
  assumes srt: "sorted (map time_of tmad)"
    and s: "s = length (filter (\<lambda>e. time_of e < b0) tmad)"
    and b0: "b0 \<le> ub t"
  shows "bin_loop ub (map time_of tmad) (map addr_of tmad) ((i, t) # its) s s c =
     (case add_at c i (map addr_of (filter (\<lambda>e. b0 \<le> time_of e \<and> time_of e < ub t) tmad)) of
        Inl err \<Rightarrow> Inl err
      | Inr c1 \<Rightarrow> bin_loop ub (map time_of tmad) (map addr_of tmad) its
          (length (filter (\<lambda>e. time_of e < ub t) tmad))
          (length (filter (\<lambda>e. time_of e < ub t) tmad)) c1)"
proof -
  let ?s' = "length (filter (\<lambda>e. time_of e < ub t) tmad)"
  have s1: "s = length (filter (\<lambda>y. y < b0) (map time_of tmad))"
    using s by (simp add: o_def)
  have e: "s + find_first (drop s (map time_of tmad)) (ub t) = ?s'"
    using find_first_drop_sorted [OF srt s1 b0] by (simp add: o_def)
  have sl: "take (?s' - s) (drop s (map addr_of tmad))
      = map addr_of (filter (\<lambda>e. b0 \<le> time_of e \<and> time_of e < ub t) tmad)"
    using sorted_slice_filter [OF srt b0] s by (simp add: take_map drop_map)
  show ?thesis
  proof (cases "?s' > s")
    case True
    then show ?thesis using e sl by (simp add: Let_def)
  next
    case False
    then have "take (?s' - s) (drop s (map addr_of tmad)) = []" by simp
    with sl have "map addr_of (filter (\<lambda>e. b0 \<le> time_of e \<and> time_of e < ub t) tmad) = []"
      by simp
    with False e show ?thesis by (simp add: Let_def)
  qed
qed

lemma bin_loop_cells:
  assumes srt: "sorted (map time_of tmad)"
    and mono: "\<forall>t. ub t \<le> ub (t + 1)"
    and valid: "\<forall>e\<in>set tmad. norm_addr (snd (shape c)) (addr_of e) \<noteq> None"
    and s: "s = length (filter (\<lambda>e. time_of e < b0) tmad)"
    and b0: "b0 \<le> ub (int j)"
  shows "\<exists>c'. bin_loop ub (map time_of tmad) (map addr_of tmad)
                 (map (\<lambda>i. (i, int i)) [j..<n]) s s c = Inr c' \<and>
           shape c' = shape c \<and>
           (\<forall>i a. cells c' (i, a) = cells c (i, a) +
              (if j \<le> i \<and> i < n then
                 of_nat (length (filter (\<lambda>e.
                    (if i = j then b0 else ub (int i - 1)) \<le> time_of e \<and>
                    time_of e < ub (int i) \<and>
                    norm_addr (snd (shape c)) (addr_of e) = Some a) tmad))
               else 0))"
  using valid s b0
proof (induction "n - j" arbitrary: j s b0 c)
  case 0
  then show ?case by auto
next
  case (Suc d)
  then have jn: "j < n" by simp
  let ?L = "filter (\<lambda>e. b0 \<le> time_of e \<and> time_of e < ub (int j)) tmad"
  let ?s' = "length (filter (\<lambda>e. time_of e < ub (int j)) tmad)"
  have "\<forall>q\<in>set (map addr_of ?L). norm_addr (snd (shape c)) q \<noteq> None"
    using Suc.prems(1) by auto
  from add_at_cells [OF this, of j] obtain c1
    where a1: "add_at c j (map addr_of ?L) = Inr c1"
      and sh1: "shape c1 = shape c"
      and ce1: "\<forall>k a. cells c1 (k, a) = cells c (k, a) +
              (if k = j then of_nat (length (filter
                   (\<lambda>q. norm_addr (snd (shape c)) q = Some a) (map addr_of ?L)))
               else 0)"
    by blast
  have step: "bin_loop ub (map time_of tmad) (map addr_of tmad)
                 (map (\<lambda>i. (i, int i)) [j..<n]) s s c
     = bin_loop ub (map time_of tmad) (map addr_of tmad)
                 (map (\<lambda>i. (i, int i)) [Suc j..<n]) ?s' ?s' c1"
    using jn a1
      bin_loop_step [of tmad s b0 ub "int j" j "map (\<lambda>i. (i, int i)) [Suc j..<n]" c,
        OF srt Suc.prems(2,3)]
    by (simp add: upt_conv_Cons)
  have d: "d = n - Suc j" using Suc.hyps(2) by simp
  have v1: "\<forall>e\<in>set tmad. norm_addr (snd (shape c1)) (addr_of e) \<noteq> None"
    using Suc.prems(1) sh1 by simp
  have m1: "ub (int j) \<le> ub (int (Suc j))" using mono [rule_format, of "int j"] by (simp add: add.commute)
  from Suc.hyps(1) [OF d v1 refl m1] obtain c'
    where run: "bin_loop ub (map time_of tmad) (map addr_of tmad)
                 (map (\<lambda>i. (i, int i)) [Suc j..<n]) ?s' ?s' c1 = Inr c'"
      and sh: "shape c' = shape c1"
      and ce: "\<forall>i a. cells c' (i, a) = cells c1 (i, a) +
              (if Suc j \<le> i \<and> i < n then
                 of_nat (length (filter (\<lambda>e.
                    (if i = Suc j then ub (int j) else ub (int i - 1)) \<le> time_of e \<and>
                    time_of e < ub (int i) \<and>
                    norm_addr (snd (shape c1)) (addr_of e) = Some a) tmad))
               else 0)"
    by blast
  have "cells c' (i, a) = cells c (i, a) +
              (if j \<le> i \<and> i < n then
                 of_nat (length (filter (\<lambda>e.
                    (if i = j then b0 else ub (int i - 1)) \<le> time_of e \<and>
                    time_of e < ub (int i) \<and>
                    norm_addr (snd (shape c)) (addr_of e) = Some a) tmad))
               else 0)" for i a
  proof (cases "i = j")
    case True
    have "filter (\<lambda>e. norm_addr (snd (shape c)) (addr_of e) = Some a) ?L
        = filter (\<lambda>e. b0 \<le> time_of e \<and> time_of e < ub (int j) \<and>
                    norm_addr (snd (shape c)) (addr_of e) = Some a) tmad"
      by (auto intro: filter_cong)
    with True jn ce [rule_format, of i a] ce1 [rule_format, of i a]
    show ?thesis by (simp add: o_def)
  next
    case False
    have "(if i = Suc j then ub (int j) else ub (int i - 1)) = ub (int i - 1)"
      by auto
    with False ce [rule_format, of i a] ce1 [rule_format, of i a] sh1
    show ?thesis by auto
  qed
  with step run sh sh1 show ?case by auto
qed

lemma binner_chunks_cells:
  assumes ne: "tmad \<noteq> []"
    and srt: "sorted (map time_of tmad)"
    and mono: "\<forall>t. ub t \<le> ub (t + 1)"
    and valid: "\<forall>e\<in>set tmad. norm_addr (binner_size self) (addr_of e) \<noteq> None"
  shows "\<exists>c. binner_chunks ub self tmad = Inr c \<and>
           shape c = (nat (binner_T self), binner_size self) \<and>
           (\<forall>i a. cells c (i, a) =
              (if i < nat (binner_T self) then
                 of_nat (length (filter (\<lambda>e.
                    (i = 0 \<or> ub (int i - 1) \<le> time_of e) \<and> time_of e < ub (int i) \<and>
                    norm_addr (binner_size self) (addr_of e) = Some a) tmad))
               else 0))"
proof -
  let ?n = "nat (binner_T self)"
  let ?z = "zeros (?n, binner_size self)"
  define b0 where "b0 = min (ub 0) (time_of (hd tmad))"
  have low: "\<forall>e\<in>set tmad. b0 \<le> time_of e"
  proof
    fix e assume "e \<in> set tmad"
    then obtain k where k: "k < length tmad" "tmad ! k = e" by (auto simp: in_set_conv_nth)
    have "map time_of tmad ! 0 \<le> map time_of tmad ! k"
      using srt k(1) by (intro sorted_nth_mono) auto
    then have "time_of (hd tmad) \<le> time_of e"
      using k ne by (simp add: hd_conv_nth)
    then show "b0 \<le> time_of e" by (simp add: b0_def)
  qed
  then have s0: "0 = length (filter (\<lambda>e. time_of e < b0) tmad)"
    by (auto simp: filter_empty_conv)
  have v: "\<forall>e\<in>set tmad. norm_addr (snd (shape ?z)) (addr_of e) \<noteq> None"
    using valid by (simp add: zeros_def)
  have b: "b0 \<le> ub (int 0)" by (simp add: b0_def)
  from bin_loop_cells [OF srt mono v s0 b, of ?n] obtain c
    where run: "bin_loop ub (map time_of tmad) (map addr_of tmad)
                 (map (\<lambda>i. (i, int i)) [0..<?n]) 0 0 ?z = Inr c"
      and sh: "shape c = shape ?z"
      and ce: "\<forall>i a. cells c (i, a) = cells ?z (i, a) +
              (if 0 \<le> i \<and> i < ?n then
                 of_nat (length (filter (\<lambda>e.
                    (if i = 0 then b0 else ub (int i - 1)) \<le> time_of e \<and>
                    time_of e < ub (int i) \<and>
                    norm_addr (snd (shape ?z)) (addr_of e) = Some a) tmad))
               else 0)"
    by blast
  have 1: "binner_chunks ub self tmad = Inr c"
    using ne run by (simp add: binner_chunks_def enum_range_def Let_def)
  have 2: "shape c = (?n, binner_size self)" using sh by (simp add: zeros_def)
  have 3: "cells c (i, a) =
              (if i < ?n then
                 of_nat (length (filter (\<lambda>e.
                    (i = 0 \<or> ub (int i - 1) \<le> time_of e) \<and> time_of e < ub (int i) \<and>
                    norm_addr (binner_size self) (addr_of e) = Some a) tmad))
               else 0)" for i a
  proof -
    have "filter (\<lambda>e. (if i = 0 then b0 else ub (int i - 1)) \<le> time_of e \<and>
                    time_of e < ub (int i) \<and>
                    norm_addr (binner_size self) (addr_of e) = Some a) tmad
        = filter (\<lambda>e. (i = 0 \<or> ub (int i - 1) \<le> time_of e) \<and> time_of e < ub (int i) \<and>
                    norm_addr (binner_size self) (addr_of e) = Some a) tmad"
      using low by (intro filter_cong) auto
    with ce [rule_format, of i a] show ?thesis by (simp add: zeros_def)
  qed
  from 1 2 3 show ?thesis by blast
qed

lemma count_bin_iff:
  "i < nat n \<Longrightarrow> ((i = 0 \<or> int i - 1 + 1 \<le> t) \<and> t < int i + 1) = (count_bin n t = Some i)"
  by (cases "0 \<le> t") (auto simp: count_bin_def)

lemma sum_bin_iff:
  "i < nat n \<Longrightarrow> ((i = 0 \<or> int i - 1 \<le> t) \<and> t < int i) = (sum_bin n t = Some i)"
  by (cases "0 \<le> t + 1") (auto simp: sum_bin_def)

lemma count_bin_less: "count_bin n t = Some i \<Longrightarrow> i < nat n"
  by (auto simp: count_bin_def split: if_splits)

lemma sum_bin_less: "sum_bin n t = Some i \<Longrightarrow> i < nat n"
  by (auto simp: sum_bin_def split: if_splits)

lemma ToCountFrame_cells:
  assumes "tmad \<noteq> []" "sorted (map time_of tmad)"
    and "\<forall>e\<in>set tmad. norm_addr (binner_size self) (addr_of e) \<noteq> None"
  shows "\<exists>c. ToCountFrame_call self tmad = Inr c \<and>
           shape c = (nat (binner_T self), binner_size self) \<and>
           (\<forall>i a. cells c (i, a) =
              of_nat (length (events_in (count_bin (binner_T self)) (binner_size self) tmad i a)))"
proof -
  from binner_chunks_cells [OF assms(1,2) _ assms(3), of "\<lambda>t. t + 1"] obtain c
    where run: "binner_chunks (\<lambda>t. t + 1) self tmad = Inr c"
      and sh: "shape c = (nat (binner_T self), binner_size self)"
      and ce: "\<forall>i a. cells c (i, a) =
              (if i < nat (binner_T self) then
                 of_nat (length (filter (\<lambda>e.
                    (i = 0 \<or> int i - 1 + 1 \<le> time_of e) \<and> time_of e < int i + 1 \<and>
                    norm_addr (binner_size self) (addr_of e) = Some a) tmad))
               else 0)"
    by auto
  have "cells c (i, a) =
          of_nat (length (events_in (count_bin (binner_T self)) (binner_size self) tmad i a))"
    for i a
  proof (cases "i < nat (binner_T self)")
    case True
    have "filter (\<lambda>e. (i = 0 \<or> int i - 1 + 1 \<le> time_of e) \<and> time_of e < int i + 1 \<and>
                    norm_addr (binner_size self) (addr_of e) = Some a) tmad
        = events_in (count_bin (binner_T self)) (binner_size self) tmad i a"
      unfolding events_in_def using count_bin_iff [OF True]
      by (intro filter_cong) auto
    with True ce [rule_format, of i a] show ?thesis by simp
  next
    case False
    then have "events_in (count_bin (binner_T self)) (binner_size self) tmad i a = []"
      by (auto simp: events_in_def filter_empty_conv dest: count_bin_less)
    with False ce [rule_format, of i a] show ?thesis by simp
  qed
  with run sh show ?thesis by (auto simp: ToCountFrame_call_def)
qed

lemma ToEventSum_chunks_cells:
  assumes "tmad \<noteq> []" "sorted (map time_of tmad)"
    and "\<forall>e\<in>set tmad. norm_addr (binner_size self) (addr_of e) \<noteq> None"
  shows "\<exists>c. ToEventSum_chunks self tmad = Inr c \<and>
           shape c = (nat (binner_T self), binner_size self) \<and>
           (\<forall>i a. cells c (i, a) =
              of_nat (length (events_in (sum_bin (binner_T self)) (binner_size self) tmad i a)))"
proof -
  from binner_chunks_cells [OF assms(1,2) _ assms(3), of "\<lambda>t. t"] obtain c
    where run: "binner_chunks (\<lambda>t. t) self tmad = Inr c"
      and sh: "shape c = (nat (binner_T self), binner_size self)"
      and ce: "\<forall>i a. cells c (i, a) =
              (if i < nat (binner_T self) then
                 of_nat (length (filter (\<lambda>e.
                    (i = 0 \<or> int i - 1 \<le> time_of e) \<and> time_of e < int i \<and>
                    norm_addr (binner_size self) (addr_of e) = Some a) tmad))
               else 0)"
    by auto
  have "cells c (i, a) =
          of_nat (length (events_in (sum_bin (binner_T self)) (binner_size self) tmad i a))"
    for i a
  proof (cases "i < nat (binner_T self)")
    case True
    have "filter (\<lambda>e. (i = 0 \<or> int i - 1 \<le> time_of e) \<and> time_of e < int i \<and>
                    norm_addr (binner_size self) (addr_of e) = Some a) tmad
        = events_in (sum_bin (binner_T self)) (binner_size self) tmad i a"
      unfolding events_in_def using sum_bin_iff [OF True]
      by (intro filter_cong) auto
    with True ce [rule_format, of i a] show ?thesis by simp
  next
    case False
    then have "events_in (sum_bin (binner_T self)) (binner_size self) tmad i a = []"
      by (auto simp: events_in_def filter_empty_conv dest: sum_bin_less)
    with False ce [rule_format, of i a] show ?thesis by simp
  qed
  with run sh show ?thesis by (auto simp: ToEventSum_chunks_def)
qed

section \<open>The total of \<open>ToCountFrame\<close>\<close>

lemma sint_count: "n \<le> 127 \<Longrightarrow> sint (of_nat n :: int8) = int n"
  by (simp add: signed_of_nat signed_take_bit_int_eq_self)

lemma length_filter_disj:
  "\<forall>x\<in>set xs. \<not> (P x \<and> Q x) \<Longrightarrow>
   length (filter (\<lambda>x. P x \<or> Q x) xs) = length (filter P xs) + length (filter Q xs)"
  by (induction xs) auto

lemma sum_list_count:
  "distinct js \<Longrightarrow>
   (\<Sum>j\<leftarrow>js. int (length (filter (\<lambda>e. h e = Some j) xs)))
     = int (length (filter (\<lambda>e. h e \<in> Some ` set js) xs))"
proof (induction js)
  case Nil
  then show ?case by simp
next
  case (Cons j js)
  have "filter (\<lambda>e. h e \<in> Some ` set (j # js)) xs
      = filter (\<lambda>e. h e = Some j \<or> h e \<in> Some ` set js) xs"
    by (intro filter_cong) auto
  moreover have "length (filter (\<lambda>e. h e = Some j \<or> h e \<in> Some ` set js) xs)
      = length (filter (\<lambda>e. h e = Some j) xs) + length (filter (\<lambda>e. h e \<in> Some ` set js) xs)"
    using Cons.prems by (intro length_filter_disj) auto
  ultimately show ?case using Cons by simp
qed

lemma distinct_all_indices: "distinct (all_indices sh)"
  by (cases sh) (simp add: all_indices_def distinct_product)

lemma set_all_indices:
  "set (all_indices (n, C, H, W)) = {(i, p, x, y). i < n \<and> p < C \<and> x < H \<and> y < W}"
  by (auto simp: all_indices_def)

lemma norm_addr_range:
  "norm_addr (C, H, W) q = Some (p, x, y) \<Longrightarrow> p < C \<and> x < H \<and> y < W"
  by (cases q) (auto simp: norm_addr_def dest: norm_index_less split: option.splits)

text \<open>
  C1, as stated.  With 128 events at time 0 in one cell and \<open>T = 1\<close>, the one cell of the
  result holds \<open>-128\<close>, so the result sums to \<open>-128\<close> and not to the 128 events with a
  timestamp in \<open>[0, 1)\<close>: the cells are \<open>int8\<close>.  An event whose address is no index of
  \<open>size\<close> makes the call raise \<open>IndexError\<close>, so that there is no tensor to sum.  And the
  one event with timestamp \<open>-1\<close> is counted (in bin 0), although no timestamp is in
  \<open>[0, 1)\<close>.
\<close>

theorem ToCountFrame_total_count_counterexample:
  "map_sum id total_count
     (ToCountFrame_call \<lparr>binner_T = 1, binner_size = (1, 1, 1)\<rparr> (replicate 128 (0, 0, 0, 0)))
     = Inr (- 128) \<and>
   length (filter (\<lambda>e. 0 \<le> time_of e \<and> time_of e < 1) (replicate 128 (0, 0, 0, 0))) = 128 \<and>
   ToCountFrame_call \<lparr>binner_T = 1, binner_size = (2, 32, 32)\<rparr> [(0, 2, 0, 0)]
     = Inl IndexError \<and>
   map_sum id total_count
     (ToCountFrame_call \<lparr>binner_T = 1, binner_size = (1, 1, 1)\<rparr> [(- 1, 0, 0, 0)])
     = Inr 1 \<and>
   length (filter (\<lambda>e. 0 \<le> time_of e \<and> time_of e < 1) [(- 1, 0, 0, 0)]) = 0"
proof -
  let ?self = "\<lparr>binner_T = 1, binner_size = (1, 1, 1)\<rparr>"
  let ?tmad = "replicate 128 (0, 0, 0, 0) :: event list"
  have 1: "?tmad \<noteq> []" by simp
  have 2: "sorted (map time_of ?tmad)" by simp
  have 3: "\<forall>e\<in>set ?tmad. norm_addr (binner_size ?self) (addr_of e) \<noteq> None"
    by (simp add: norm_addr_def norm_index_def addr_of_def)
  from ToCountFrame_cells [OF 1 2 3] obtain c
    where run: "ToCountFrame_call ?self ?tmad = Inr c"
      and sh: "shape c = (nat (binner_T ?self), binner_size ?self)"
      and ce: "\<forall>i a. cells c (i, a) = of_nat
          (length (events_in (count_bin (binner_T ?self)) (binner_size ?self) ?tmad i a))"
    by blast
  have "cells c (0, 0, 0, 0) = 128"
    using ce [rule_format, of 0 "(0, 0, 0)"]
    by (simp add: events_in_def count_bin_def time_of_def addr_of_def norm_addr_def
        norm_index_def)
  then have "total_count c = - 128"
    by (simp add: total_count_def sh all_indices_def)
  with run have a: "map_sum id total_count (ToCountFrame_call ?self ?tmad) = Inr (- 128)"
    by simp
  have b: "length (filter (\<lambda>e. 0 \<le> time_of e \<and> time_of e < 1) ?tmad) = 128"
    by (simp add: time_of_def)
  have c: "ToCountFrame_call \<lparr>binner_T = 1, binner_size = (2, 32, 32)\<rparr> [(0, 2, 0, 0)]
     = Inl IndexError"
    by (simp add: ToCountFrame_call_def binner_chunks_def enum_range_def zeros_def
      time_of_def addr_of_def find_first_def bisect_left_def bisect_loop.simps
      norm_addr_def norm_index_def Let_def)
  have d: "map_sum id total_count
     (ToCountFrame_call \<lparr>binner_T = 1, binner_size = (1, 1, 1)\<rparr> [(- 1, 0, 0, 0)])
     = Inr 1"
    by (simp add: ToCountFrame_call_def binner_chunks_def enum_range_def zeros_def
      time_of_def addr_of_def find_first_def bisect_left_def bisect_loop.simps
      norm_addr_def norm_index_def Let_def total_count_def all_indices_def)
  have e: "length (filter (\<lambda>e. 0 \<le> time_of e \<and> time_of e < 1) [(- 1, 0, 0, 0)]) = 0"
    by (simp add: time_of_def)
  from a b c d e show ?thesis by blast
qed

text \<open>
  C1, amended.  For every non-empty, timestamp-sorted event list whose addresses are
  indices of \<open>size\<close> and that puts at most 127 events into any one cell of a bin,
  \<open>ToCountFrame\<close> returns a tensor whose sum over all bins and cells is the number of
  events that have a bin: for \<open>T > 0\<close> the events with a timestamp below \<open>T\<close>, those with a
  negative timestamp being counted in bin 0.  Every cell holds the number of events with
  its address whose bin it is; the bin is a function of the timestamp, so no event
  contributes to two bins.
\<close>

theorem ToCountFrame_total_count:
  assumes "tmad \<noteq> []" and "sorted (map time_of tmad)"
    and "\<forall>e\<in>set tmad. norm_addr (binner_size self) (addr_of e) \<noteq> None"
    and "\<forall>i a. length (events_in (count_bin (binner_T self)) (binner_size self) tmad i a) \<le> 127"
  shows "\<exists>chunks. ToCountFrame_call self tmad = Inr chunks \<and>
           total_count chunks
             = int (length (filter (\<lambda>e. count_bin (binner_T self) (time_of e) \<noteq> None) tmad)) \<and>
           (\<forall>i a. cells chunks (i, a) = of_nat
              (length (events_in (count_bin (binner_T self)) (binner_size self) tmad i a)))"
proof -
  let ?bin = "count_bin (binner_T self)"
  let ?sz = "binner_size self"
  obtain C H W where sz: "?sz = (C, H, W)" by (cases ?sz) auto
  from ToCountFrame_cells [OF assms(1-3)] obtain c
    where run: "ToCountFrame_call self tmad = Inr c"
      and sh: "shape c = (nat (binner_T self), ?sz)"
      and ce: "\<forall>i a. cells c (i, a) = of_nat (length (events_in ?bin ?sz tmad i a))"
    by blast
  define h where "h e = (case ?bin (time_of e) of None \<Rightarrow> None
      | Some i \<Rightarrow> (case norm_addr ?sz (addr_of e) of None \<Rightarrow> None | Some a \<Rightarrow> Some (i, a)))"
    for e
  have ev: "events_in ?bin ?sz tmad i a = filter (\<lambda>e. h e = Some (i, a)) tmad" for i a
    unfolding events_in_def h_def by (intro filter_cong) (auto split: option.splits)
  have "sint (cells c idx) = int (length (filter (\<lambda>e. h e = Some idx) tmad))" for idx
  proof -
    obtain i a where idx: "idx = (i, a)" by (cases idx)
    show ?thesis
      unfolding idx using ce [rule_format, of i a] assms(4) [rule_format, of i a]
      by (simp add: sint_count ev)
  qed
  then have "total_count c
      = (\<Sum>idx\<leftarrow>all_indices (shape c). int (length (filter (\<lambda>e. h e = Some idx) tmad)))"
    by (simp add: total_count_def)
  also have "\<dots> = int (length (filter (\<lambda>e. h e \<in> Some ` set (all_indices (shape c))) tmad))"
    by (rule sum_list_count) (rule distinct_all_indices)
  also have "filter (\<lambda>e. h e \<in> Some ` set (all_indices (shape c))) tmad
      = filter (\<lambda>e. ?bin (time_of e) \<noteq> None) tmad"
  proof (rule filter_cong [OF refl])
    fix e assume e: "e \<in> set tmad"
    with assms(3) obtain p x y where a: "norm_addr ?sz (addr_of e) = Some (p, x, y)"
      by (metis not_None_eq prod_cases3)
    then have r: "p < C \<and> x < H \<and> y < W" using sz norm_addr_range by metis
    show "(h e \<in> Some ` set (all_indices (shape c))) = (?bin (time_of e) \<noteq> None)"
    proof (cases "?bin (time_of e)")
      case None
      then show ?thesis by (simp add: h_def image_iff)
    next
      case (Some i)
      then have "i < nat (binner_T self)" by (rule count_bin_less)
      with Some a r show ?thesis by (simp add: h_def sh sz set_all_indices)
    qed
  qed
  finally have "total_count c = int (length (filter (\<lambda>e. ?bin (time_of e) \<noteq> None) tmad))" .
  with run ce show ?thesis by blast
qed

theorem ToCountFrame_total_count_witness:
  "\<exists>chunks. ToCountFrame_call \<lparr>binner_T = 2, binner_size = (2, 2, 2)\<rparr>
       [(-3, 1, 0, 0), (0, 1, 0, 0), (1, 0, 1, -1), (1, 0, 1, 1), (2, 0, 0, 0)] = Inr chunks \<and>
     total_count chunks = 4 \<and> cells chunks (0, 1, 0, 0) = 2 \<and> cells chunks (1, 0, 1, 1) = 2"
proof -
  let ?self = "\<lparr>binner_T = 2, binner_size = (2, 2, 2)\<rparr>"
  let ?tmad = "[(-3, 1, 0, 0), (0, 1, 0, 0), (1, 0, 1, -1), (1, 0, 1, 1), (2, 0, 0, 0)] :: event list"
  have 1: "?tmad \<noteq> []" by simp
  have 2: "sorted (map time_of ?tmad)" by (simp add: time_of_def)
  have 3: "\<forall>e\<in>set ?tmad. norm_addr (binner_size ?self) (addr_of e) \<noteq> None"
    by (simp add: norm_addr_def norm_index_def addr_of_def)
  have 4: "\<forall>i a. length (events_in (count_bin (binner_T ?self)) (binner_size ?self) ?tmad i a)
      \<le> 127"
  proof (intro allI)
    fix i a
    have "length (events_in (count_bin (binner_T ?self)) (binner_size ?self) ?tmad i a)
        \<le> length ?tmad"
      unfolding events_in_def by (rule length_filter_le)
    then show "length (events_in (count_bin (binner_T ?self)) (binner_size ?self) ?tmad i a)
        \<le> 127" by simp
  qed
  from ToCountFrame_total_count [OF 1 2 3 4] obtain chunks
    where "ToCountFrame_call ?self ?tmad = Inr chunks"
      and "total_count chunks
             = int (length (filter (\<lambda>e. count_bin (binner_T ?self) (time_of e) \<noteq> None) ?tmad))"
      and "\<forall>i a. cells chunks (i, a) = of_nat
              (length (events_in (count_bin (binner_T ?self)) (binner_size ?self) ?tmad i a))"
    by blast
  then show ?thesis
    by (intro exI [of _ chunks])
      (simp add: events_in_def count_bin_def time_of_def addr_of_def norm_addr_def norm_index_def)
qed

section \<open>The bins of the two binners\<close>

text \<open>
  C3, as stated.  With \<open>T = 3\<close>, the event with timestamp 1 is counted in bin 1 by
  \<open>ToCountFrame\<close>; \<open>ToEventSum\<close> counts it in bin 2, one bin later, and not in bin 0.
\<close>

theorem binners_bin_counterexample:
  "cell_of (ToCountFrame_call \<lparr>binner_T = 3, binner_size = (1, 1, 1)\<rparr> [(1, 0, 0, 0)])
      (1, 0, 0, 0) = Some 1 \<and>
   cell_of (ToEventSum_chunks \<lparr>binner_T = 3, binner_size = (1, 1, 1)\<rparr> [(1, 0, 0, 0)])
      (0, 0, 0, 0) = Some 0 \<and>
   cell_of (ToEventSum_chunks \<lparr>binner_T = 3, binner_size = (1, 1, 1)\<rparr> [(1, 0, 0, 0)])
      (2, 0, 0, 0) = Some 1"
  by (simp add: cell_of_def ToCountFrame_call_def ToEventSum_chunks_def binner_chunks_def
      enum_range_def zeros_def
      time_of_def addr_of_def find_first_def bisect_left_def bisect_loop.simps upt_rec
      norm_addr_def norm_index_def Let_def)

text \<open>
  C3, amended.  For every non-empty, timestamp-sorted event list with addresses that are
  indices of \<open>size\<close>, both binners return their array of bins.  \<open>ToCountFrame\<close> closes bin
  \<open>i\<close> at \<open>i + 1\<close>: the event with timestamp \<open>t\<close>, \<open>0 \<le> t < T\<close>, is counted in bin \<open>t\<close>.
  \<open>ToEventSum\<close> closes bin \<open>i\<close> at \<open>i\<close>: the same event is counted in bin \<open>t + 1\<close>, one bin
  later, when \<open>t + 1 < T\<close>, and in no bin when \<open>t = T - 1\<close>.  Events before time 0 are
  counted in bin 0 by both.
\<close>

theorem binners_bin_assignment:
  assumes "tmad \<noteq> []" and "sorted (map time_of tmad)"
    and "\<forall>e\<in>set tmad. norm_addr (binner_size self) (addr_of e) \<noteq> None"
  shows "\<exists>cf es. ToCountFrame_call self tmad = Inr cf \<and> ToEventSum_chunks self tmad = Inr es \<and>
     (\<forall>i a. cells cf (i, a) = of_nat
          (length (events_in (count_bin (binner_T self)) (binner_size self) tmad i a)) \<and>
        cells es (i, a) = of_nat
          (length (events_in (sum_bin (binner_T self)) (binner_size self) tmad i a)))"
  using ToCountFrame_cells [OF assms] ToEventSum_chunks_cells [OF assms] by blast

theorem binners_bin_assignment_witness:
  "\<exists>cf es.
     ToCountFrame_call \<lparr>binner_T = 3, binner_size = (1, 1, 1)\<rparr> [(1, 0, 0, 0), (2, 0, 0, 0)] = Inr cf \<and>
     ToEventSum_chunks \<lparr>binner_T = 3, binner_size = (1, 1, 1)\<rparr> [(1, 0, 0, 0), (2, 0, 0, 0)] = Inr es \<and>
     cells cf (1, 0, 0, 0) = 1 \<and> cells cf (2, 0, 0, 0) = 1 \<and>
     cells es (0, 0, 0, 0) = 0 \<and> cells es (1, 0, 0, 0) = 0 \<and> cells es (2, 0, 0, 0) = 1"
proof -
  let ?self = "\<lparr>binner_T = 3, binner_size = (1, 1, 1)\<rparr>"
  let ?tmad = "[(1, 0, 0, 0), (2, 0, 0, 0)] :: event list"
  have 1: "?tmad \<noteq> []" by simp
  have 2: "sorted (map time_of ?tmad)" by (simp add: time_of_def)
  have 3: "\<forall>e\<in>set ?tmad. norm_addr (binner_size ?self) (addr_of e) \<noteq> None"
    by (simp add: norm_addr_def norm_index_def addr_of_def)
  from binners_bin_assignment [OF 1 2 3] obtain cf es
    where "ToCountFrame_call ?self ?tmad = Inr cf" "ToEventSum_chunks ?self ?tmad = Inr es"
      and "\<forall>i a. cells cf (i, a) = of_nat
          (length (events_in (count_bin (binner_T ?self)) (binner_size ?self) ?tmad i a)) \<and>
        cells es (i, a) = of_nat
          (length (events_in (sum_bin (binner_T ?self)) (binner_size ?self) ?tmad i a))"
    by blast
  then show ?thesis
    by (intro exI [of _ cf] exI [of _ es])
      (simp add: events_in_def count_bin_def sum_bin_def time_of_def addr_of_def
        norm_addr_def norm_index_def)
qed

section \<open>\<open>ToEventSum\<close> and the sum of \<open>ToCountFrame\<close>\<close>

text \<open>
  Where the binners diverge: on an event with a timestamp from \<open>0\<close> to \<open>T - 1\<close> the two
  arrays of bins differ.
\<close>

lemma binners_diverge_inside:
  assumes "0 \<le> t" and "t < binner_T self" and "norm_addr (binner_size self) a \<noteq> None"
  shows "ToEventSum_chunks self [(t, a)] \<noteq> ToCountFrame_call self [(t, a)]"
proof -
  let ?tmad = "[(t, a)] :: event list"
  from assms(3) obtain a' where a': "norm_addr (binner_size self) a = Some a'" by auto
  have 1: "?tmad \<noteq> []" by simp
  have 2: "sorted (map time_of ?tmad)" by simp
  have 3: "\<forall>e\<in>set ?tmad. norm_addr (binner_size self) (addr_of e) \<noteq> None"
    using assms(3) by (simp add: addr_of_def)
  from ToCountFrame_cells [OF 1 2 3] obtain cf
    where cf: "ToCountFrame_call self ?tmad = Inr cf"
      and ccf: "\<forall>i a. cells cf (i, a) = of_nat
          (length (events_in (count_bin (binner_T self)) (binner_size self) ?tmad i a))"
    by blast
  from ToEventSum_chunks_cells [OF 1 2 3] obtain es
    where es: "ToEventSum_chunks self ?tmad = Inr es"
      and ces: "\<forall>i a. cells es (i, a) = of_nat
          (length (events_in (sum_bin (binner_T self)) (binner_size self) ?tmad i a))"
    by blast
  have "cells cf (nat t, a') = 1"
    using ccf [rule_format, of "nat t" a'] assms(1,2) a'
    by (simp add: events_in_def count_bin_def time_of_def addr_of_def)
  moreover have "cells es (nat t, a') = 0"
    using ces [rule_format, of "nat t" a'] assms(1,2) a'
    by (simp add: events_in_def sum_bin_def time_of_def addr_of_def nat_add_distrib)
  ultimately have "cf \<noteq> es" by auto
  with cf es show ?thesis by simp
qed




text \<open>
  Beyond that: the sums over the time axis still agree when events lie on bin edges, as
  long as no event has the timestamp \<open>T - 1\<close>, which \<open>ToEventSum\<close> drops, and no cell of a
  bin of \<open>ToCountFrame\<close> exceeds the range of \<open>int8\<close>.
\<close>

lemma scast_count: "n \<le> 127 \<Longrightarrow> (scast (of_nat n :: int8) :: int64) = of_nat n"
  by (simp add: scast_eq sint_count)

lemma sum_list_bins:
  "(\<Sum>i\<leftarrow>[0..<n]. (of_nat (length (filter (\<lambda>e. h e = Some i) xs)) :: int64))
     = of_nat (length (filter (\<lambda>e. h e \<in> Some ` {..<n}) xs))"
proof -
  have "(\<Sum>i\<leftarrow>[0..<n]. (of_nat (length (filter (\<lambda>e. h e = Some i) xs)) :: int64))
      = of_int (\<Sum>i\<leftarrow>[0..<n]. int (length (filter (\<lambda>e. h e = Some i) xs)))"
    by (induction n) simp_all
  also have "(\<Sum>i\<leftarrow>[0..<n]. int (length (filter (\<lambda>e. h e = Some i) xs)))
      = int (length (filter (\<lambda>e. h e \<in> Some ` set [0..<n]) xs))"
    by (rule sum_list_count) simp
  finally show ?thesis by (simp add: lessThan_atLeast0)
qed


lemma length_filter_mono:
  "\<forall>x\<in>set xs. P x \<longrightarrow> Q x \<Longrightarrow> length (filter P xs) \<le> length (filter Q xs)"
  by (induction xs) auto

lemma sum_bin_count_bin: "sum_bin n t = Some i \<Longrightarrow> count_bin n t = Some (i - 1)"
  by (cases "0 \<le> t") (auto simp: sum_bin_def count_bin_def nat_add_distrib split: if_splits)

lemma bin_in_range:
  "(count_bin n t \<in> Some ` {..<nat n}) = (0 < n \<and> t < n)"
  "(sum_bin n t \<in> Some ` {..<nat n}) = (0 < n \<and> t + 1 < n)"
  by (auto simp: count_bin_def sum_bin_def image_iff)

lemma sum_axis0_cells:
  assumes "\<forall>i a. cells c (i, a) = of_nat (length (events_in bin sz tmad i a))"
    and "\<forall>i a. length (events_in bin sz tmad i a) \<le> 127"
    and "shape c = (n, sz)"
  shows "sum_axis0 c = \<lparr>shape = (1, sz), cells = (\<lambda>(i, a). if i = 0 then
            of_nat (length (filter (\<lambda>e. bin (time_of e) \<in> Some ` {..<n} \<and>
                                        norm_addr sz (addr_of e) = Some a) tmad))
          else 0)\<rparr>"
proof -
  have "(\<Sum>t\<leftarrow>[0..<n]. (scast (cells c (t, a)) :: int64))
      = of_nat (length (filter (\<lambda>e. bin (time_of e) \<in> Some ` {..<n} \<and>
                                        norm_addr sz (addr_of e) = Some a) tmad))" for a
  proof -
    define h where "h e = (if norm_addr sz (addr_of e) = Some a then bin (time_of e) else None)"
      for e
    have ev: "events_in bin sz tmad t a = filter (\<lambda>e. h e = Some t) tmad" for t
      unfolding events_in_def h_def by (intro filter_cong) auto
    have "(scast (cells c (t, a)) :: int64) = of_nat (length (filter (\<lambda>e. h e = Some t) tmad))"
      for t
      using assms(1) [rule_format, of t a] assms(2) [rule_format, of t a]
      by (simp add: scast_count ev)
    then have "(\<Sum>t\<leftarrow>[0..<n]. (scast (cells c (t, a)) :: int64))
        = (\<Sum>t\<leftarrow>[0..<n]. of_nat (length (filter (\<lambda>e. h e = Some t) tmad)))"
      by simp
    also have "\<dots> = of_nat (length (filter (\<lambda>e. h e \<in> Some ` {..<n}) tmad))"
      by (rule sum_list_bins)
    also have "filter (\<lambda>e. h e \<in> Some ` {..<n}) tmad
        = filter (\<lambda>e. bin (time_of e) \<in> Some ` {..<n} \<and>
                                        norm_addr sz (addr_of e) = Some a) tmad"
      unfolding h_def by (intro filter_cong) auto
    finally show ?thesis .
  qed
  then show ?thesis using assms(3) by (simp add: sum_axis0_def fun_eq_iff)
qed

lemma ToEventSum_eq_summed_no_overflow:
  assumes "tmad \<noteq> []" and "sorted (map time_of tmad)"
    and "\<forall>e\<in>set tmad. norm_addr (binner_size self) (addr_of e) \<noteq> None"
    and "\<forall>e\<in>set tmad. time_of e \<noteq> binner_T self - 1"
    and "\<forall>i a. length (events_in (count_bin (binner_T self)) (binner_size self) tmad i a) \<le> 127"
  shows "ToEventSum_call self tmad =
     (case ToCountFrame_call self tmad of
        Inl err \<Rightarrow> Inl err
      | Inr chunks \<Rightarrow> Inr (sum_axis0 chunks))"
proof -
  let ?n = "binner_T self"
  let ?sz = "binner_size self"
  from ToCountFrame_cells [OF assms(1-3)] obtain cf
    where cf: "ToCountFrame_call self tmad = Inr cf"
      and shcf: "shape cf = (nat ?n, ?sz)"
      and ccf: "\<forall>i a. cells cf (i, a) = of_nat (length (events_in (count_bin ?n) ?sz tmad i a))"
    by blast
  from ToEventSum_chunks_cells [OF assms(1-3)] obtain es
    where es: "ToEventSum_chunks self tmad = Inr es"
      and shes: "shape es = (nat ?n, ?sz)"
      and ces: "\<forall>i a. cells es (i, a) = of_nat (length (events_in (sum_bin ?n) ?sz tmad i a))"
    by blast
  have small: "\<forall>i a. length (events_in (sum_bin ?n) ?sz tmad i a) \<le> 127"
  proof (intro allI)
    fix i a
    have "length (events_in (sum_bin ?n) ?sz tmad i a)
        \<le> length (events_in (count_bin ?n) ?sz tmad (i - 1) a)"
      unfolding events_in_def by (rule length_filter_mono) (auto dest: sum_bin_count_bin)
    with assms(5) [rule_format, of "i - 1" a]
    show "length (events_in (sum_bin ?n) ?sz tmad i a) \<le> 127" by simp
  qed
  have "filter (\<lambda>e. sum_bin ?n (time_of e) \<in> Some ` {..<nat ?n} \<and>
                   norm_addr ?sz (addr_of e) = Some a) tmad
      = filter (\<lambda>e. count_bin ?n (time_of e) \<in> Some ` {..<nat ?n} \<and>
                   norm_addr ?sz (addr_of e) = Some a) tmad" for a
    using assms(4) by (intro filter_cong) (auto simp: bin_in_range)
  then have "sum_axis0 es = sum_axis0 cf"
    unfolding sum_axis0_cells [OF ces small shes] sum_axis0_cells [OF ccf assms(5) shcf]
    by (simp add: fun_eq_iff)
  with cf es show ?thesis by (simp add: ToEventSum_call_def)
qed

end
